theory Spec2Isabelle
  imports Main
begin

section \<open>Data model of \<open>App.js\<close>\<close>

text \<open>
  The two player symbols \<open>PLAYER_X = 'X'\<close> and \<open>PLAYER_O = 'O'\<close>.
\<close>

datatype mark = PLAYER_X | PLAYER_O

text \<open>
  A slot of a JavaScript array that holds a board. \<open>Empty\<close> is a present element whose
  value is \<open>null\<close> or \<open>undefined\<close> (the source never tells the two apart: it tests
  \<open>cell == null\<close>, \<open>sq != null\<close> and truthiness only). \<open>Hole\<close> is a missing element of a
  sparse array, which \<open>forEach\<close> and \<open>every\<close> skip and which reads as \<open>undefined\<close>;
  holes arise only from a write beyond the end of the array.
\<close>

datatype cell = Hole | Empty | Mark mark

type_synonym squares = "cell list"

text \<open>\<open>Array(9).fill(null)\<close>\<close>

definition getEmptyBoard :: squares where
  "getEmptyBoard = replicate 9 Empty"

text \<open>
  The read \<open>board[i]\<close>, up to truthiness: \<open>Some m\<close> for the mark stored there, \<open>None\<close>
  for the falsy results (\<open>null\<close>, \<open>undefined\<close>, a hole, an index beyond the end).
\<close>

definition read_cell :: "squares \<Rightarrow> nat \<Rightarrow> mark option" where
  "read_cell brd i =
     (if i < length brd then (case brd ! i of Mark m \<Rightarrow> Some m | _ \<Rightarrow> None) else None)"

text \<open>The spread copy \<open>[...board]\<close>: the iterator yields \<open>undefined\<close> for a hole.\<close>

definition spread :: "squares \<Rightarrow> squares" where
  "spread brd = map (\<lambda>c. if c = Hole then Empty else c) brd"

text \<open>
  The write \<open>board[i] = v\<close>: in range it replaces the element; beyond the end JavaScript
  extends the array, leaving holes between the old end and \<open>i\<close>.
\<close>

definition array_set :: "squares \<Rightarrow> nat \<Rightarrow> cell \<Rightarrow> squares" where
  "array_set brd i v =
     (if i < length brd then brd[i := v]
      else brd @ replicate (i - length brd) Hole @ [v])"

section \<open>Rules engine: \<open>calculateWinner\<close>\<close>

type_synonym line = "nat \<times> nat \<times> nat"

definition lines :: "line list" where
  "lines = [(0, 1, 2), (3, 4, 5), (6, 7, 8),
            (0, 3, 6), (1, 4, 7), (2, 5, 8),
            (0, 4, 8), (2, 4, 6)]"

text \<open>
  The object returned by \<open>calculateWinner\<close>: \<open>{winner: board[a], line}\<close> or
  \<open>{winner: 'Draw', line: null}\<close>; the result \<open>null\<close> is \<open>None\<close>.
\<close>

datatype outcome = Win mark line | Draw

text \<open>The \<open>for (let line of lines)\<close> loop with its early return.\<close>

fun check_lines :: "squares \<Rightarrow> line list \<Rightarrow> outcome option" where
  "check_lines brd [] = None"
| "check_lines brd ((a, b, c) # rest) =
     (case read_cell brd a of
        None \<Rightarrow> check_lines brd rest
      | Some m \<Rightarrow>
          if read_cell brd b = Some m \<and> read_cell brd c = Some m
          then Some (Win m (a, b, c))
          else check_lines brd rest)"

definition calculateWinner :: "squares \<Rightarrow> outcome option" where
  "calculateWinner brd =
     (case check_lines brd lines of
        Some r \<Rightarrow> Some r
      | None \<Rightarrow> if list_all (\<lambda>sq. sq \<noteq> Empty) brd then Some Draw else None)"

section \<open>Move search: \<open>getBestAIMove\<close>\<close>

text \<open>
  The returned object \<open>{idx, score}\<close>. \<open>idx = None\<close> stands for a result without an
  index: the terminal results \<open>{score: s}\<close> and the fallback \<open>{idx: null, score: 0}\<close>.
\<close>

record move =
  idx :: "nat option"
  score :: int

text \<open>
  \<open>moves.reduce((acc, move) => (acc == null || move.score > acc.score ? move : acc), null)\<close>
\<close>

definition pick_best :: "(nat \<times> int) list \<Rightarrow> (nat \<times> int) option" where
  "pick_best moves =
     foldl (\<lambda>acc mv. case acc of
                        None \<Rightarrow> Some mv
                      | Some a \<Rightarrow> if snd mv > snd a then Some mv else Some a)
           None moves"

text \<open>The indices that \<open>board.forEach\<close> visits with \<open>cell == null\<close>.\<close>

definition candidates :: "squares \<Rightarrow> nat list" where
  "candidates brd = filter (\<lambda>i. brd ! i = Empty) [0..<length brd]"

text \<open>\<open>let newBoard = [...board]; newBoard[idx] = aiPlayer;\<close>\<close>

definition place :: "squares \<Rightarrow> nat \<Rightarrow> mark \<Rightarrow> squares" where
  "place brd i p = array_set (spread brd) i (Mark p)"

definition unmarked :: "squares \<Rightarrow> nat" where
  "unmarked brd = length (filter (\<lambda>c. c = Hole \<or> c = Empty) brd)"

lemma unmarked_spread: "unmarked (spread brd) = unmarked brd"
  unfolding unmarked_def spread_def by (induction brd) auto

lemma unmarked_update:
  assumes "i < length xs" and "xs ! i = Empty"
  shows "Suc (unmarked (xs[i := Mark p])) = unmarked xs"
proof -
  have "unmarked xs = unmarked (take i xs @ Empty # drop (Suc i) xs)"
    using assms id_take_nth_drop[of i xs] by simp
  moreover have "xs[i := Mark p] = take i xs @ Mark p # drop (Suc i) xs"
    using assms by (simp add: upd_conv_take_nth_drop)
  ultimately show ?thesis
    by (simp add: unmarked_def)
qed

lemma unmarked_place:
  assumes "i < length brd" and "brd ! i = Empty"
  shows "unmarked (place brd i p) < unmarked brd"
proof -
  have "spread brd ! i = Empty" and "i < length (spread brd)"
    using assms by (simp_all add: spread_def)
  then have "Suc (unmarked ((spread brd)[i := Mark p])) = unmarked (spread brd)"
    by (rule unmarked_update[rotated])
  then show ?thesis
    using assms by (simp add: place_def array_set_def spread_def unmarked_spread[unfolded spread_def])
qed

function getBestAIMove :: "squares \<Rightarrow> mark \<Rightarrow> mark \<Rightarrow> move" where
  "getBestAIMove brd aiPlayer humanPlayer =
     (let result = calculateWinner brd in
      if (case result of Some (Win w l) \<Rightarrow> w = aiPlayer | _ \<Rightarrow> False)
        then \<lparr>idx = None, score = 1\<rparr>
      else if (case result of Some (Win w l) \<Rightarrow> w = humanPlayer | _ \<Rightarrow> False)
        then \<lparr>idx = None, score = - 1\<rparr>
      else if result = Some Draw
        then \<lparr>idx = None, score = 0\<rparr>
      else
        (let moves =
               map (\<lambda>i. (i, - score (getBestAIMove (place brd i aiPlayer) humanPlayer aiPlayer)))
                   (candidates brd)
         in case pick_best moves of
              Some (i, s) \<Rightarrow> \<lparr>idx = Some i, score = s\<rparr>
            | None \<Rightarrow> \<lparr>idx = None, score = 0\<rparr>))"
  by pat_completeness auto
termination
  apply (relation "measure (\<lambda>(brd, p, q). unmarked brd)")
   apply simp
  apply (auto simp: candidates_def intro: unmarked_place)
  done

declare getBestAIMove.simps [simp del]

section \<open>Game session: the state of \<open>App\<close> and its handlers\<close>

text \<open>
  The two game modes, and the React state of \<open>App\<close> that the game logic reads and
  writes: \<open>mode\<close>, \<open>history\<close> (entries \<open>{board, xIsNext}\<close>), \<open>stepNumber\<close> and
  \<open>aiThinking\<close>. The \<open>theme\<close> state is presentation only and no handler modelled here
  reads or writes it.
\<close>

datatype game_mode = MODE_SINGLE_PLAYER | MODE_TWO_PLAYER

record entry =
  board :: squares
  xIsNext :: bool

record session =
  mode :: game_mode
  history :: "entry list"
  stepNumber :: nat
  aiThinking :: bool

definition initial_entry :: entry where
  "initial_entry = \<lparr>board = getEmptyBoard, xIsNext = True\<rparr>"

text \<open>The \<open>useState\<close> defaults.\<close>

definition initial_session :: session where
  "initial_session =
     \<lparr>mode = MODE_SINGLE_PLAYER, history = [initial_entry], stepNumber = 0, aiThinking = False\<rparr>"

text \<open>
  \<open>const current = history[stepNumber]\<close>. Out of range the read is \<open>undefined\<close> and the
  next line, \<open>current.board\<close>, throws a \<open>TypeError\<close> while rendering: \<open>None\<close>.
\<close>

definition current :: "session \<Rightarrow> entry option" where
  "current s =
     (if stepNumber s < length (history s) then Some (history s ! stepNumber s) else None)"

text \<open>
  \<open>handleSquareClick(idx, isAI)\<close>, as a function of the state its closure sees. The two
  early returns leave the state as it is; otherwise \<open>setHistory\<close> and \<open>setStepNumber\<close>
  take effect together.
\<close>

definition handleSquareClick :: "session \<Rightarrow> nat \<Rightarrow> bool \<Rightarrow> session option" where
  "handleSquareClick s i isAI =
     (case current s of
        None \<Rightarrow> None
      | Some cur \<Rightarrow>
          if calculateWinner (board cur) \<noteq> None \<or> read_cell (board cur) i \<noteq> None
             \<or> (mode s = MODE_SINGLE_PLAYER \<and> aiThinking s \<and> \<not> isAI)
          then Some s
          else if \<not> isAI \<and> mode s = MODE_SINGLE_PLAYER \<and> \<not> xIsNext cur
          then Some s
          else
            (let brd = array_set (spread (board cur)) i
                         (Mark (if xIsNext cur then PLAYER_X else PLAYER_O));
                 nextHistory = take (stepNumber s + 1) (history s)
                                 @ [\<lparr>board = brd, xIsNext = \<not> xIsNext cur\<rparr>]
             in Some (s\<lparr>history := nextHistory, stepNumber := length nextHistory - 1\<rparr>)))"

definition jumpTo :: "session \<Rightarrow> nat \<Rightarrow> session" where
  "jumpTo s step = s\<lparr>stepNumber := step\<rparr>"

definition handleRestart :: "session \<Rightarrow> session" where
  "handleRestart s = s\<lparr>history := [initial_entry], stepNumber := 0, aiThinking := False\<rparr>"

text \<open>\<open>setMode(newMode); handleRestart();\<close>\<close>

definition switchMode :: "session \<Rightarrow> game_mode \<Rightarrow> session" where
  "switchMode s newMode = handleRestart (s\<lparr>mode := newMode\<rparr>)"

text \<open>
  The AI effect. Its guard, the \<open>setAIThinking(true)\<close> it performs at once, and the
  timer callback: the search for \<open>PLAYER_O\<close>, the AI-tagged click when the search gave
  an index whose cell is free, then \<open>setAIThinking(false)\<close>.
\<close>

definition ai_due :: "session \<Rightarrow> bool" where
  "ai_due s =
     (case current s of
        None \<Rightarrow> False
      | Some cur \<Rightarrow>
          mode s = MODE_SINGLE_PLAYER \<and> calculateWinner (board cur) = None \<and> \<not> xIsNext cur)"

definition ai_effect_start :: "session \<Rightarrow> session" where
  "ai_effect_start s = (if ai_due s then s\<lparr>aiThinking := True\<rparr> else s)"

definition ai_timer_fire :: "session \<Rightarrow> session option" where
  "ai_timer_fire s =
     (case current s of
        None \<Rightarrow> None
      | Some cur \<Rightarrow>
          (let best = getBestAIMove (board cur) PLAYER_O PLAYER_X;
               clicked =
                 (case idx best of
                    None \<Rightarrow> Some s
                  | Some i \<Rightarrow>
                      if read_cell (board cur) i = None then handleSquareClick s i True
                      else Some s)
           in map_option (\<lambda>t. t\<lparr>aiThinking := False\<rparr>) clicked))"

text \<open>
  The states the application can be in: the initial one, and those that the handlers and
  the AI effect lead to. \<open>jumpTo\<close> is called by the history panel with the index of an
  existing entry.
\<close>

inductive reachable :: "session \<Rightarrow> bool" where
  reach_init: "reachable initial_session"
| reach_click: "reachable s \<Longrightarrow> handleSquareClick s i isAI = Some t \<Longrightarrow> reachable t"
| reach_jump: "reachable s \<Longrightarrow> step < length (history s) \<Longrightarrow> reachable (jumpTo s step)"
| reach_restart: "reachable s \<Longrightarrow> reachable (handleRestart s)"
| reach_switch: "reachable s \<Longrightarrow> reachable (switchMode s m)"
| reach_ai_start: "reachable s \<Longrightarrow> reachable (ai_effect_start s)"
| reach_ai_fire: "reachable s \<Longrightarrow> ai_due s \<Longrightarrow> ai_timer_fire s = Some t \<Longrightarrow> reachable t"

section \<open>Notions used to state the properties\<close>

text \<open>
  A line is completed for a mark when its three cells hold that mark. Rows and columns of
  the row-major 3x3 grid, as index triples.
\<close>

definition completed :: "squares \<Rightarrow> line \<Rightarrow> mark \<Rightarrow> bool" where
  "completed brd l m =
     (case l of (a, b, c) \<Rightarrow> brd ! a = Mark m \<and> brd ! b = Mark m \<and> brd ! c = Mark m)"

definition row :: "nat \<Rightarrow> line" where "row r = (3 * r, 3 * r + 1, 3 * r + 2)"
definition col :: "nat \<Rightarrow> line" where "col c = (c, c + 3, c + 6)"

text \<open>The same, through the reads the code performs.\<close>

definition rc_completed :: "squares \<Rightarrow> line \<Rightarrow> mark \<Rightarrow> bool" where
  "rc_completed brd l m =
     (case l of (a, b, c) \<Rightarrow>
        read_cell brd a = Some m \<and> read_cell brd b = Some m \<and> read_cell brd c = Some m)"

text \<open>The mark that \<open>handleSquareClick\<close> writes: \<open>current.xIsNext ? PLAYER_X : PLAYER_O\<close>.\<close>

definition mover :: "entry \<Rightarrow> mark" where
  "mover cur = (if xIsNext cur then PLAYER_X else PLAYER_O)"

text \<open>
  The operation \<open>newSession(mode)\<close> as the specification words it: history is a single
  entry with the empty board and X to move, the current step is 0, and no AI move is
  pending.
\<close>

definition spec_newSession :: "game_mode \<Rightarrow> session" where
  "spec_newSession m =
     \<lparr>mode = m, history = [\<lparr>board = replicate 9 Empty, xIsNext = True\<rparr>],
      stepNumber = 0, aiThinking = False\<rparr>"

text \<open>Concrete sessions used as test inputs.\<close>

definition s_after_x4 :: session where
  "s_after_x4 = \<lparr>mode = MODE_SINGLE_PLAYER,
      history = [initial_entry,
                 \<lparr>board = [Empty, Empty, Empty, Empty, Mark PLAYER_X, Empty, Empty, Empty, Empty],
                  xIsNext = False\<rparr>],
      stepNumber = 1, aiThinking = False\<rparr>"



text \<open>
  The score a candidate move gets in \<open>getBestAIMove\<close>: the negated score of the recursive
  search on the board with the move made, roles swapped.
\<close>

definition child_score :: "squares \<Rightarrow> mark \<Rightarrow> mark \<Rightarrow> nat \<Rightarrow> int" where
  "child_score brd p q i = - score (getBestAIMove (place brd i p) q p)"

text \<open>
  A board as the data model has it: 9 cells, each empty or holding a mark.
\<close>

definition wellformed :: "squares \<Rightarrow> bool" where
  "wellformed brd \<longleftrightarrow> length brd = 9 \<and> Hole \<notin> set brd"

text \<open>
  The game-theoretic value of a position for the player \<open>p\<close> to move against \<open>q\<close>: 1, -1 or
  0 at a finished game (won by \<open>p\<close>, won by \<open>q\<close>, drawn), and otherwise the best, over the
  empty cells, of the negated value of the position after \<open>p\<close> moves there, with \<open>q\<close> to move.
\<close>

function minimax_value :: "squares \<Rightarrow> mark \<Rightarrow> mark \<Rightarrow> int" where
  "minimax_value brd p q =
     (case calculateWinner brd of
        Some (Win w l) \<Rightarrow> if w = p then 1 else - 1
      | Some Draw \<Rightarrow> 0
      | None \<Rightarrow> Max ((\<lambda>i. - minimax_value (brd[i := Mark p]) q p)
                       ` {i. i < length brd \<and> brd ! i = Empty}))"
  by pat_completeness auto
termination
proof (relation "measure (\<lambda>(brd, p, q). unmarked brd)")
  show "wf (measure (\<lambda>(brd, p, q). unmarked brd))" by simp
next
  fix brd :: squares and p q :: mark and i
  assume "i \<in> {i. i < length brd \<and> brd ! i = Empty}"
  then have "Suc (unmarked (brd[i := Mark p])) = unmarked brd"
    by (simp add: unmarked_update)
  then show "((brd[i := Mark p], q, p), (brd, p, q)) \<in> measure (\<lambda>(brd, p, q). unmarked brd)"
    by simp
qed

declare minimax_value.simps [simp del]

text \<open>
  The same in terms of what a player can force. The player \<open>p\<close> to move forces a win when
  \<open>p\<close>'s line is already complete, or the game is ongoing and some empty cell leads to a
  position where the opponent, to move, cannot avoid the loss. The player to move cannot
  avoid the loss when the opponent's line is complete, or the game is ongoing and every
  empty cell leads to a position where the opponent forces a win.
\<close>

inductive forces_win :: "squares \<Rightarrow> mark \<Rightarrow> mark \<Rightarrow> bool"
  and cannot_avoid_loss :: "squares \<Rightarrow> mark \<Rightarrow> mark \<Rightarrow> bool" where
  has_won: "calculateWinner brd = Some (Win p l) \<Longrightarrow> forces_win brd p q"
| winning_move:
    "calculateWinner brd = None \<Longrightarrow> i < length brd \<Longrightarrow> brd ! i = Empty
     \<Longrightarrow> cannot_avoid_loss (brd[i := Mark p]) q p \<Longrightarrow> forces_win brd p q"
| has_lost: "calculateWinner brd = Some (Win q l) \<Longrightarrow> cannot_avoid_loss brd p q"
| every_move_loses:
    "calculateWinner brd = None
     \<Longrightarrow> (\<And>i. i < length brd \<Longrightarrow> brd ! i = Empty \<Longrightarrow> forces_win (brd[i := Mark p]) q p)
     \<Longrightarrow> cannot_avoid_loss brd p q"

text \<open>
  A bounded search used to evaluate positions in proofs: \<open>at_least brd p q v\<close> decides
  whether the score of the search is at least \<open>v\<close>. It answers as soon as one move
  suffices, and tries the cells in an order of its own.
\<close>

definition search_order :: "nat list" where
  "search_order = [4, 0, 8, 2, 6, 1, 3, 5, 7]"

definition free_cells :: "squares \<Rightarrow> nat list" where
  "free_cells brd = filter (\<lambda>i. i < length brd \<and> brd ! i = Empty) search_order"

lemma free_cells_iff: "i \<in> set (free_cells brd) \<longleftrightarrow> i \<in> set search_order \<and> i < length brd \<and> brd ! i = Empty"
  by (auto simp: free_cells_def)

function at_least :: "squares \<Rightarrow> mark \<Rightarrow> mark \<Rightarrow> int \<Rightarrow> bool" where
  "at_least brd p q v =
     (case calculateWinner brd of
        Some (Win w l) \<Rightarrow> v \<le> (if w = p then 1 else - 1)
      | Some Draw \<Rightarrow> v \<le> 0
      | None \<Rightarrow> list_ex (\<lambda>i. \<not> at_least (place brd i p) q p (1 - v)) (free_cells brd))"
  by pat_completeness auto
termination
  by (relation "measure (\<lambda>(brd, p, q, v). unmarked brd)")
     (auto simp: free_cells_iff intro: unmarked_place)

declare at_least.simps [simp del]

definition refute :: "squares \<Rightarrow> mark \<Rightarrow> mark \<Rightarrow> int \<Rightarrow> nat list \<Rightarrow> bool" where
  "refute brd p q v is = list_ex (\<lambda>i. \<not> at_least (place brd i p) q p (1 - v)) is"

text \<open>Cell-wise views of a board written out as nine cells.\<close>

fun cell_mark :: "cell \<Rightarrow> mark option" where
  "cell_mark (Mark m) = Some m"
| "cell_mark Empty = None"
| "cell_mark Hole = None"

fun unhole :: "cell \<Rightarrow> cell" where
  "unhole Hole = Empty"
| "unhole Empty = Empty"
| "unhole (Mark m) = Mark m"

fun free_at :: "cell \<Rightarrow> nat \<Rightarrow> nat list \<Rightarrow> nat list" where
  "free_at Empty i rest = i # rest"
| "free_at Hole i rest = rest"
| "free_at (Mark m) i rest = rest"

text \<open>
  \<open>move_ok brd p q i\<close>: the game is ongoing, cell \<open>i\<close> is free, each free cell before \<open>i\<close>
  leaves the opponent a win and each free cell after \<open>i\<close> leaves the opponent at least a
  draw. \<open>line_ok\<close> checks this along a sequence of moves that ends in a draw.
\<close>

definition move_ok :: "squares \<Rightarrow> mark \<Rightarrow> mark \<Rightarrow> nat \<Rightarrow> bool" where
  "move_ok brd p q i \<longleftrightarrow>
     calculateWinner brd = None \<and> i < length brd \<and> brd ! i = Empty
     \<and> list_all (\<lambda>j. if j = i then True
                      else at_least (place brd j p) q p (if j < i then 1 else 0))
                (candidates brd)"

fun line_ok :: "squares \<Rightarrow> mark \<Rightarrow> mark \<Rightarrow> nat list \<Rightarrow> bool" where
  "line_ok brd p q [] = (calculateWinner brd = Some Draw)"
| "line_ok brd p q (i # is) = (move_ok brd p q i \<and> line_ok (place brd i p) q p is)"

text \<open>Boards used as test inputs.\<close>

definition fork_board :: squares where
  "fork_board = [Empty, Mark PLAYER_O, Empty,
                 Empty, Empty, Mark PLAYER_O,
                 Mark PLAYER_X, Mark PLAYER_X, Empty]"

definition two_in_row_board :: squares where
  "two_in_row_board = [Mark PLAYER_X, Mark PLAYER_X, Empty,
                       Mark PLAYER_O, Mark PLAYER_O, Empty,
                       Empty, Empty, Empty]"

section \<open>The rules engine\<close>

lemma check_lines_None:
  "check_lines brd ls = None \<longleftrightarrow> (\<forall>l \<in> set ls. \<forall>m. \<not> rc_completed brd l m)"
  by (induction brd ls rule: check_lines.induct)
     (auto simp: rc_completed_def split: option.splits)

lemma check_lines_first:
  assumes "k < length ls" and "rc_completed brd (ls ! k) m"
    and "\<forall>j<k. \<forall>m'. \<not> rc_completed brd (ls ! j) m'"
  shows "check_lines brd ls = Some (Win m (ls ! k))"
  using assms
proof (induction brd ls arbitrary: k rule: check_lines.induct)
  case (1 brd)
  then show ?case by simp
next
  case (2 brd a b c rest)
  show ?case
  proof (cases k)
    case 0
    with "2.prems"(2) show ?thesis by (simp add: rc_completed_def)
  next
    case (Suc k')
    with "2.prems"(3) have first: "\<forall>m'. \<not> rc_completed brd (a, b, c) m'" by fastforce
    from Suc "2.prems" have p:
      "k' < length rest" "rc_completed brd (rest ! k') m"
      "\<forall>j<k'. \<forall>m'. \<not> rc_completed brd (rest ! j) m'"
      by auto
    have rest: "check_lines brd rest = Some (Win m (rest ! k'))"
    proof (cases "read_cell brd a")
      case None
      then show ?thesis using "2.IH"(1) p by blast
    next
      case (Some m0)
      with first have "\<not> (read_cell brd b = Some m0 \<and> read_cell brd c = Some m0)"
        by (simp add: rc_completed_def)
      then show ?thesis using "2.IH"(2)[OF Some _ p] by blast
    qed
    show ?thesis
      using first rest Suc by (auto simp: rc_completed_def split: option.splits)
  qed
qed

lemma read_cell_in_range:
  "i < length brd \<Longrightarrow> read_cell brd i = Some m \<longleftrightarrow> brd ! i = Mark m"
  by (auto simp: read_cell_def split: cell.splits)

lemma lines_in_range:
  "(a, b, c) \<in> set lines \<Longrightarrow> a < 9 \<and> b < 9 \<and> c < 9"
  by (auto simp: lines_def)

lemma rc_completed_iff:
  assumes "length brd = 9" and "l \<in> set lines"
  shows "rc_completed brd l m \<longleftrightarrow> completed brd l m"
proof -
  obtain a b c where l: "l = (a, b, c)" by (cases l)
  with assms lines_in_range have "a < length brd" "b < length brd" "c < length brd" by auto
  then show ?thesis
    by (simp add: l rc_completed_def completed_def read_cell_in_range)
qed

lemma length_lines: "length lines = 8"
  by (simp add: lines_def)

text \<open>
  Claim C1. On a board of 9 cells, \<open>calculateWinner\<close> returns \<open>Win\<close> with the mark and
  the line of the first of the 8 lines, in the order rows, columns, diagonals, whose three
  cells hold the same mark; with no completed line it returns \<open>Draw\<close> when all 9 cells are
  filled and \<open>null\<close> when some cell is empty.
\<close>

theorem calculateWinner_spec:
  assumes "length brd = 9"
  shows "lines = map row [0, 1, 2] @ map col [0, 1, 2] @ [(0, 4, 8), (2, 4, 6)]
    \<and> (\<forall>k<8. \<forall>m. completed brd (lines ! k) m
                  \<and> (\<forall>j<k. \<forall>m'. \<not> completed brd (lines ! j) m')
          \<longrightarrow> calculateWinner brd = Some (Win m (lines ! k)))
    \<and> ((\<forall>k<8. \<forall>m. \<not> completed brd (lines ! k) m) \<and> (\<forall>i<9. \<exists>m. brd ! i = Mark m)
          \<longrightarrow> calculateWinner brd = Some Draw)
    \<and> ((\<forall>k<8. \<forall>m. \<not> completed brd (lines ! k) m) \<and> (\<exists>i<9. brd ! i = Empty)
          \<longrightarrow> calculateWinner brd = None)"
proof -
  have shape: "lines = map row [0, 1, 2] @ map col [0, 1, 2] @ [(0, 4, 8), (2, 4, 6)]"
    by (simp add: lines_def row_def col_def)
  have mem: "lines ! k \<in> set lines" if "k < 8" for k
    using that length_lines by simp
  have win: "calculateWinner brd = Some (Win m (lines ! k))"
    if "k < 8" and "completed brd (lines ! k) m"
      and "\<forall>j<k. \<forall>m'. \<not> completed brd (lines ! j) m'" for k m
  proof -
    have "rc_completed brd (lines ! k) m"
      using that mem assms by (simp add: rc_completed_iff)
    moreover have "\<forall>j<k. \<forall>m'. \<not> rc_completed brd (lines ! j) m'"
      using that mem assms by (simp add: rc_completed_iff)
    ultimately have "check_lines brd lines = Some (Win m (lines ! k))"
      using that(1) length_lines by (intro check_lines_first) simp_all
    then show ?thesis by (simp add: calculateWinner_def)
  qed
  have none: "check_lines brd lines = None" if "\<forall>k<8. \<forall>m. \<not> completed brd (lines ! k) m"
  proof -
    have "\<not> rc_completed brd l m" if "l \<in> set lines" for l m
    proof -
      from that obtain k where "k < 8" "l = lines ! k"
        using length_lines by (metis in_set_conv_nth)
      then show ?thesis
        using \<open>\<forall>k<8. \<forall>m. \<not> completed brd (lines ! k) m\<close> that assms
        by (simp add: rc_completed_iff)
    qed
    then show ?thesis by (simp add: check_lines_None)
  qed
  have full: "list_all (\<lambda>sq. sq \<noteq> Empty) brd \<longleftrightarrow> (\<forall>i<9. brd ! i \<noteq> Empty)"
    using assms by (simp add: list_all_length)
  have draw: "calculateWinner brd = Some Draw"
    if "\<forall>k<8. \<forall>m. \<not> completed brd (lines ! k) m" and "\<forall>i<9. \<exists>m. brd ! i = Mark m"
  proof -
    have "\<forall>i<9. brd ! i \<noteq> Empty" using that(2) by (metis cell.distinct(5))
    then show ?thesis using none[OF that(1)] full by (simp add: calculateWinner_def)
  qed
  have ongoing: "calculateWinner brd = None"
    if "\<forall>k<8. \<forall>m. \<not> completed brd (lines ! k) m" and "\<exists>i<9. brd ! i = Empty"
    using none[OF that(1)] full that(2) by (auto simp: calculateWinner_def)
  show ?thesis
    using shape win draw ongoing by blast
qed

theorem calculateWinner_spec_witness:
  "calculateWinner [Mark PLAYER_X, Mark PLAYER_X, Mark PLAYER_X,
                    Mark PLAYER_O, Mark PLAYER_O, Empty,
                    Empty, Empty, Empty] = Some (Win PLAYER_X (0, 1, 2))
   \<and> calculateWinner [Mark PLAYER_X, Mark PLAYER_O, Mark PLAYER_X,
                      Mark PLAYER_X, Mark PLAYER_O, Mark PLAYER_O,
                      Mark PLAYER_O, Mark PLAYER_X, Mark PLAYER_X] = Some Draw
   \<and> calculateWinner [Empty, Mark PLAYER_O, Mark PLAYER_X,
                      Mark PLAYER_X, Mark PLAYER_O, Mark PLAYER_O,
                      Mark PLAYER_O, Mark PLAYER_X, Mark PLAYER_X] = None"
proof -
  let ?w = "[Mark PLAYER_X, Mark PLAYER_X, Mark PLAYER_X,
             Mark PLAYER_O, Mark PLAYER_O, Empty, Empty, Empty, Empty]"
  let ?d = "[Mark PLAYER_X, Mark PLAYER_O, Mark PLAYER_X,
             Mark PLAYER_X, Mark PLAYER_O, Mark PLAYER_O,
             Mark PLAYER_O, Mark PLAYER_X, Mark PLAYER_X]"
  let ?o = "[Empty, Mark PLAYER_O, Mark PLAYER_X,
             Mark PLAYER_X, Mark PLAYER_O, Mark PLAYER_O,
             Mark PLAYER_O, Mark PLAYER_X, Mark PLAYER_X]"
  have w: "completed ?w (lines ! 0) PLAYER_X \<and> (\<forall>j<0. \<forall>m'. \<not> completed ?w (lines ! j) m')"
    by (simp add: completed_def lines_def)
  have "length ?w = 9" by simp
  from calculateWinner_spec[OF this] w have 1: "calculateWinner ?w = Some (Win PLAYER_X (lines ! 0))"
    by (metis zero_less_numeral)
  have "\<forall>l \<in> set lines. \<forall>m. \<not> completed ?d l m"
    by (simp add: lines_def completed_def)
  then have d1: "\<forall>k<8. \<forall>m. \<not> completed ?d (lines ! k) m"
    using length_lines by simp
  have "list_all (\<lambda>c. \<exists>m. c = Mark m) ?d" by simp
  then have d2: "\<forall>i<9. \<exists>m. ?d ! i = Mark m"
    unfolding list_all_length by simp
  note d = conjI[OF d1 d2]
  have "length ?d = 9" by simp
  from calculateWinner_spec[OF this] d have 2: "calculateWinner ?d = Some Draw"
    by blast
  have "?o ! 0 = Empty" by simp
  then have "\<exists>i<9. ?o ! i = Empty" by (metis zero_less_numeral)
  moreover have "\<forall>l \<in> set lines. \<forall>m. \<not> completed ?o l m"
    by (simp add: lines_def completed_def)
  then have "\<forall>k<8. \<forall>m. \<not> completed ?o (lines ! k) m"
    using length_lines by simp
  ultimately have o: "(\<forall>k<8. \<forall>m. \<not> completed ?o (lines ! k) m) \<and> (\<exists>i<9. ?o ! i = Empty)"
    by blast
  have "length ?o = 9" by simp
  from calculateWinner_spec[OF this] o have 3: "calculateWinner ?o = None"
    by blast
  show ?thesis using 1 2 3 by (simp add: lines_def)
qed

lemma calculateWinner_empty: "calculateWinner getEmptyBoard = None"
  by (simp add: calculateWinner_def lines_def read_cell_def getEmptyBoard_def numeral_eq_Suc)

lemma read_cell_empty: "read_cell getEmptyBoard i = None"
  by (simp add: read_cell_def getEmptyBoard_def)


section \<open>The move search at a finished game\<close>

text \<open>
  Claim C5. On a board whose outcome is not ongoing, \<open>getBestAIMove\<close> for the searching
  player \<open>p\<close> against the opponent \<open>q\<close> returns no index, and the score 1 when \<open>p\<close>'s
  mark has won, -1 when \<open>q\<close>'s mark has won, 0 for a draw.
\<close>

theorem getBestAIMove_terminal:
  assumes "calculateWinner brd = Some r" and "p \<noteq> q"
  shows "idx (getBestAIMove brd p q) = None
       \<and> score (getBestAIMove brd p q) =
           (case r of Win w l \<Rightarrow> if w = p then 1 else - 1 | Draw \<Rightarrow> 0)
       \<and> (\<forall>w l. r = Win w l \<and> w \<noteq> p \<longrightarrow> w = q)"
proof (cases r)
  case (Win w l)
  then show ?thesis
    using assms by (cases w; cases p; cases q) (simp_all add: getBestAIMove.simps[of brd])
next
  case Draw
  then show ?thesis
    using assms by (simp add: getBestAIMove.simps[of brd])
qed

theorem getBestAIMove_terminal_witness:
  "calculateWinner [Mark PLAYER_X, Mark PLAYER_X, Mark PLAYER_X,
                    Mark PLAYER_O, Mark PLAYER_O, Empty,
                    Empty, Empty, Empty] = Some (Win PLAYER_X (0, 1, 2))
   \<and> PLAYER_O \<noteq> PLAYER_X
   \<and> getBestAIMove [Mark PLAYER_X, Mark PLAYER_X, Mark PLAYER_X,
                    Mark PLAYER_O, Mark PLAYER_O, Empty,
                    Empty, Empty, Empty] PLAYER_O PLAYER_X = \<lparr>idx = None, score = - 1\<rparr>"
proof -
  let ?w = "[Mark PLAYER_X, Mark PLAYER_X, Mark PLAYER_X,
             Mark PLAYER_O, Mark PLAYER_O, Empty, Empty, Empty, Empty]"
  have c: "calculateWinner ?w = Some (Win PLAYER_X (0, 1, 2))"
    by (simp add: calculateWinner_def lines_def read_cell_def)
  have n: "PLAYER_O \<noteq> PLAYER_X" by simp
  show ?thesis using c n getBestAIMove_terminal[OF c n] by simp
qed

section \<open>The game session\<close>

lemma spread_no_hole: "Hole \<notin> set brd \<Longrightarrow> spread brd = brd"
  unfolding spread_def by (induction brd) auto

lemma length_spread: "length (spread brd) = length brd"
  by (simp add: spread_def)

lemma getEmptyBoard_cells:
  "getEmptyBoard = [Empty, Empty, Empty, Empty, Empty, Empty, Empty, Empty, Empty]"
  by (simp add: getEmptyBoard_def numeral_eq_Suc)

lemma click_initial_4: "handleSquareClick initial_session 4 False = Some s_after_x4"
  by (simp add: handleSquareClick_def initial_session_def current_def initial_entry_def
      calculateWinner_empty read_cell_empty s_after_x4_def Let_def)
     (simp add: getEmptyBoard_cells spread_def array_set_def numeral_eq_Suc)



lemma current_initial: "current initial_session = Some initial_entry"
  by (simp add: current_def initial_session_def)

text \<open>
  A call changes the state exactly when none of the guards returns early.
\<close>

lemma click_changes_iff:
  assumes "current s = Some cur"
  shows "handleSquareClick s i isAI \<noteq> Some s \<longleftrightarrow>
           calculateWinner (board cur) = None \<and> read_cell (board cur) i = None
           \<and> \<not> (mode s = MODE_SINGLE_PLAYER \<and> aiThinking s \<and> \<not> isAI)
           \<and> \<not> (\<not> isAI \<and> mode s = MODE_SINGLE_PLAYER \<and> \<not> xIsNext cur)"
proof -
  from assms have k: "stepNumber s < length (history s)"
    by (auto simp: current_def split: if_splits)
  let ?h = "take (stepNumber s + 1) (history s)
              @ [\<lparr>board = array_set (spread (board cur)) i
                            (Mark (if xIsNext cur then PLAYER_X else PLAYER_O)),
                  xIsNext = \<not> xIsNext cur\<rparr>]"
  have "stepNumber (s\<lparr>history := ?h, stepNumber := length ?h - 1\<rparr>) = stepNumber s + 1"
    using k by simp
  then have "s\<lparr>history := ?h, stepNumber := length ?h - 1\<rparr> \<noteq> s"
    by (metis n_not_Suc_n Suc_eq_plus1)
  then show ?thesis
    using assms by (auto simp: handleSquareClick_def Let_def)
qed






text \<open>
  In the states the application reaches, an AI move is pending in single-player mode only.
\<close>

lemma reachable_ai_pending_single:
  "reachable s \<Longrightarrow> aiThinking s \<Longrightarrow> mode s = MODE_SINGLE_PLAYER"
proof (induction rule: reachable.induct)
  case reach_init
  then show ?case by (simp add: initial_session_def)
next
  case (reach_click s i isAI t)
  then show ?case
    by (auto simp: handleSquareClick_def Let_def split: option.splits if_splits)
next
  case (reach_jump s step)
  then show ?case by (simp add: jumpTo_def)
next
  case (reach_restart s)
  then show ?case by (simp add: handleRestart_def)
next
  case (reach_switch s m)
  then show ?case by (simp add: switchMode_def handleRestart_def)
next
  case (reach_ai_start s)
  then show ?case
    by (auto simp: ai_effect_start_def ai_due_def split: if_splits option.splits)
next
  case (reach_ai_fire s t)
  then show ?case
    by (auto simp: ai_timer_fire_def Let_def split: option.splits if_splits)
qed

lemma handleSquareClick_step:
  assumes "handleSquareClick s i isAI = Some t" and "stepNumber s < length (history s)"
  shows "stepNumber t < length (history t)"
  using assms
  by (auto simp: handleSquareClick_def current_def Let_def split: if_splits)

lemma ai_timer_fire_step:
  assumes "ai_timer_fire s = Some t" and "stepNumber s < length (history s)"
  shows "stepNumber t < length (history t)"
  using assms handleSquareClick_step[of s _ True]
  by (auto simp: ai_timer_fire_def current_def Let_def split: if_splits option.splits)

text \<open>
  Claim C8. Every state reachable from the initial one through \<open>handleSquareClick\<close>,
  \<open>handleRestart\<close>, \<open>switchMode\<close> and \<open>jumpTo\<close> to an existing step (and through the AI
  effect) satisfies \<open>0 \<le> stepNumber < history.length\<close>.
\<close>

theorem reachable_step_in_range:
  "reachable s \<Longrightarrow> 0 \<le> stepNumber s \<and> stepNumber s < length (history s)"
proof (induction rule: reachable.induct)
  case reach_init
  show ?case by (simp add: initial_session_def)
next
  case (reach_click s i isAI t)
  then show ?case using handleSquareClick_step by blast
next
  case (reach_jump s step)
  then show ?case by (simp add: jumpTo_def)
next
  case (reach_restart s)
  show ?case by (simp add: handleRestart_def)
next
  case (reach_switch s m)
  show ?case by (simp add: switchMode_def handleRestart_def)
next
  case (reach_ai_start s)
  then show ?case by (simp add: ai_effect_start_def)
next
  case (reach_ai_fire s t)
  then show ?case using ai_timer_fire_step by blast
qed

theorem reachable_step_in_range_witness:
  "reachable s_after_x4 \<and> 0 \<le> stepNumber s_after_x4
   \<and> stepNumber s_after_x4 < length (history s_after_x4)"
proof -
  have r: "reachable s_after_x4"
    using reach_click[OF reach_init click_initial_4] .
  show ?thesis using r reachable_step_in_range[OF r] by simp
qed

text \<open>
  Claim C9. \<open>switchMode\<close> does what \<open>newSession\<close> does: whatever the state before, the
  mode is the given one, the history is the single entry with the empty board and X to
  move, the step is 0 and no AI move is pending.
\<close>

theorem switchMode_is_newSession:
  "switchMode s m = spec_newSession m
   \<and> mode (switchMode s m) = m
   \<and> history (switchMode s m) = [\<lparr>board = replicate 9 Empty, xIsNext = True\<rparr>]
   \<and> stepNumber (switchMode s m) = 0
   \<and> \<not> aiThinking (switchMode s m)"
  by (simp add: switchMode_def handleRestart_def spec_newSession_def initial_entry_def getEmptyBoard_def)

text \<open>
  Claim C10. \<open>handleSquareClick\<close> does not check the range of the index: on a board of 9
  cells with an ongoing game and the turn guards passing, an index above 8 is played, and
  the new entry's board holds the mover's mark at that index, so it no longer has 9 cells.
\<close>

theorem playMove_out_of_range_extends:
  assumes "current s = Some cur"
    and "length (board cur) = 9"
    and "calculateWinner (board cur) = None"
    and "8 < i"
    and "\<not> (mode s = MODE_SINGLE_PLAYER \<and> aiThinking s \<and> \<not> isAI)"
    and "\<not> (\<not> isAI \<and> mode s = MODE_SINGLE_PLAYER \<and> \<not> xIsNext cur)"
  shows "\<exists>t brd. handleSquareClick s i isAI = Some t \<and> t \<noteq> s
      \<and> history t = take (stepNumber s + 1) (history s) @ [\<lparr>board = brd, xIsNext = \<not> xIsNext cur\<rparr>]
      \<and> brd ! i = Mark (mover cur)
      \<and> length brd = i + 1 \<and> length brd \<noteq> 9"
proof -
  let ?brd = "array_set (spread (board cur)) i (Mark (mover cur))"
  let ?h = "take (stepNumber s + 1) (history s) @ [\<lparr>board = ?brd, xIsNext = \<not> xIsNext cur\<rparr>]"
  let ?t = "s\<lparr>history := ?h, stepNumber := length ?h - 1\<rparr>"
  from assms have k: "stepNumber s < length (history s)"
    by (auto simp: current_def split: if_splits)
  have rc: "read_cell (board cur) i = None"
    using assms by (simp add: read_cell_def)
  have 1: "handleSquareClick s i isAI = Some ?t"
    using assms rc by (auto simp: handleSquareClick_def Let_def mover_def)
  have "stepNumber ?t = stepNumber s + 1" using k by simp
  then have 2: "?t \<noteq> s" by (metis n_not_Suc_n Suc_eq_plus1)
  have 3: "length ?brd = i + 1" "?brd ! i = Mark (mover cur)"
    using assms by (simp_all add: array_set_def length_spread nth_append)
  show ?thesis
    apply (rule exI[of _ ?t], rule exI[of _ ?brd])
    using 1 2 3 assms(4) by simp
qed

theorem playMove_out_of_range_extends_witness:
  "current initial_session = Some initial_entry
   \<and> length (board initial_entry) = 9
   \<and> calculateWinner (board initial_entry) = None
   \<and> (\<exists>t brd. handleSquareClick initial_session 12 False = Some t \<and> t \<noteq> initial_session
        \<and> history t = [initial_entry, \<lparr>board = brd, xIsNext = False\<rparr>]
        \<and> brd ! 12 = Mark PLAYER_X \<and> length brd = 13)"
proof -
  have 1: "length (board initial_entry) = 9"
    by (simp add: initial_entry_def getEmptyBoard_def)
  have 2: "calculateWinner (board initial_entry) = None"
    by (simp add: initial_entry_def calculateWinner_empty)
  have 3: "(8::nat) < 12" by simp
  have 4: "\<not> (mode initial_session = MODE_SINGLE_PLAYER \<and> aiThinking initial_session \<and> \<not> False)"
    by (simp add: initial_session_def)
  have 5: "\<not> (\<not> False \<and> mode initial_session = MODE_SINGLE_PLAYER \<and> \<not> xIsNext initial_entry)"
    by (simp add: initial_entry_def)
  have x: "mover initial_entry = PLAYER_X" "xIsNext initial_entry"
    by (simp_all add: mover_def initial_entry_def)
  have h: "take (stepNumber initial_session + 1) (history initial_session) = [initial_entry]"
    by (simp add: initial_session_def)
  from playMove_out_of_range_extends[OF current_initial 1 2 3 4 5]
  show ?thesis
    using current_initial 1 2 unfolding h by (auto simp: x)
qed

section \<open>The move search on an ongoing game\<close>

abbreviation (input) keep_better :: "(nat \<times> int) option \<Rightarrow> nat \<times> int \<Rightarrow> (nat \<times> int) option" where
  "keep_better \<equiv> (\<lambda>acc mv. case acc of
                        None \<Rightarrow> Some mv
                      | Some a \<Rightarrow> if snd mv > snd a then Some mv else Some a)"

lemma fold_keep_better:
  "\<exists>b. foldl keep_better (Some a) ms = Some b
      \<and> ((b = a \<and> (\<forall>m \<in> set ms. snd m \<le> snd a))
         \<or> (\<exists>pre post. ms = pre @ b # post \<and> snd a < snd b
               \<and> (\<forall>m \<in> set pre. snd m < snd b) \<and> (\<forall>m \<in> set post. snd m \<le> snd b)))"
proof (induction ms arbitrary: a)
  case Nil
  show ?case by simp
next
  case (Cons m ms)
  define a' where "a' = (if snd m > snd a then m else a)"
  have step: "foldl keep_better (Some a) (m # ms) = foldl keep_better (Some a') ms"
    by (simp add: a'_def)
  from Cons[of a'] obtain b where b: "foldl keep_better (Some a') ms = Some b"
    and d: "(b = a' \<and> (\<forall>x \<in> set ms. snd x \<le> snd a'))
         \<or> (\<exists>pre post. ms = pre @ b # post \<and> snd a' < snd b
               \<and> (\<forall>x \<in> set pre. snd x < snd b) \<and> (\<forall>x \<in> set post. snd x \<le> snd b))"
    by blast
  have a': "snd a \<le> snd a'" "snd m \<le> snd a'" by (simp_all add: a'_def)
  have "(b = a \<and> (\<forall>x \<in> set (m # ms). snd x \<le> snd a))
         \<or> (\<exists>pre post. m # ms = pre @ b # post \<and> snd a < snd b
               \<and> (\<forall>x \<in> set pre. snd x < snd b) \<and> (\<forall>x \<in> set post. snd x \<le> snd b))"
    using d
  proof
    assume h: "b = a' \<and> (\<forall>x \<in> set ms. snd x \<le> snd a')"
    show ?thesis
    proof (cases "snd m > snd a")
      case True
      then have "b = m" using h by (simp add: a'_def)
      then have "m # ms = [] @ b # ms \<and> snd a < snd b
               \<and> (\<forall>x \<in> set []. snd x < snd b) \<and> (\<forall>x \<in> set ms. snd x \<le> snd b)"
        using True h by (simp add: a'_def)
      then show ?thesis by blast
    next
      case False
      then have "b = a" using h by (simp add: a'_def)
      then show ?thesis using False h by (simp add: a'_def)
    qed
  next
    assume "\<exists>pre post. ms = pre @ b # post \<and> snd a' < snd b
               \<and> (\<forall>x \<in> set pre. snd x < snd b) \<and> (\<forall>x \<in> set post. snd x \<le> snd b)"
    then obtain pre post where h: "ms = pre @ b # post" "snd a' < snd b"
        "\<forall>x \<in> set pre. snd x < snd b" "\<forall>x \<in> set post. snd x \<le> snd b" by blast
    then have "m # ms = (m # pre) @ b # post \<and> snd a < snd b
               \<and> (\<forall>x \<in> set (m # pre). snd x < snd b) \<and> (\<forall>x \<in> set post. snd x \<le> snd b)"
      using a' by simp
    then show ?thesis by blast
  qed
  then show ?case using b step by simp
qed

lemma pick_best_Nil: "pick_best [] = None"
  by (simp add: pick_best_def)

lemma pick_best_first_max:
  assumes "ms \<noteq> []"
  shows "\<exists>b pre post. pick_best ms = Some b \<and> ms = pre @ b # post
      \<and> (\<forall>m \<in> set pre. snd m < snd b) \<and> (\<forall>m \<in> set post. snd m \<le> snd b)"
proof -
  from assms obtain m ms' where ms: "ms = m # ms'" by (cases ms) auto
  have pb: "pick_best ms = foldl keep_better (Some m) ms'"
    by (simp add: pick_best_def ms)
  from fold_keep_better[of m ms'] obtain b where b: "foldl keep_better (Some m) ms' = Some b"
    and d: "(b = m \<and> (\<forall>x \<in> set ms'. snd x \<le> snd m))
         \<or> (\<exists>pre post. ms' = pre @ b # post \<and> snd m < snd b
               \<and> (\<forall>x \<in> set pre. snd x < snd b) \<and> (\<forall>x \<in> set post. snd x \<le> snd b))"
    by blast
  from d show ?thesis
  proof
    assume "b = m \<and> (\<forall>x \<in> set ms'. snd x \<le> snd m)"
    then have "ms = [] @ b # ms' \<and> (\<forall>x \<in> set []. snd x < snd b) \<and> (\<forall>x \<in> set ms'. snd x \<le> snd b)"
      using ms by simp
    then show ?thesis using pb b by metis
  next
    assume "\<exists>pre post. ms' = pre @ b # post \<and> snd m < snd b
               \<and> (\<forall>x \<in> set pre. snd x < snd b) \<and> (\<forall>x \<in> set post. snd x \<le> snd b)"
    then obtain pre post where "ms' = pre @ b # post" "snd m < snd b"
        "\<forall>x \<in> set pre. snd x < snd b" "\<forall>x \<in> set post. snd x \<le> snd b" by blast
    then have "ms = (m # pre) @ b # post
      \<and> (\<forall>x \<in> set (m # pre). snd x < snd b) \<and> (\<forall>x \<in> set post. snd x \<le> snd b)"
      using ms by simp
    then show ?thesis using pb b by metis
  qed
qed

lemma candidates_iff: "i \<in> set (candidates brd) \<longleftrightarrow> i < length brd \<and> brd ! i = Empty"
  by (auto simp: candidates_def)

lemma candidates_sorted: "sorted (candidates brd)" and candidates_distinct: "distinct (candidates brd)"
  by (simp_all add: candidates_def sorted_wrt_filter)

lemma candidates_split:
  assumes "candidates brd = pre @ i # post"
  shows "(\<forall>j \<in> set pre. j < i) \<and> (\<forall>j \<in> set post. i < j)"
proof -
  have "sorted (pre @ i # post)" "distinct (pre @ i # post)"
    using assms candidates_sorted[of brd] candidates_distinct[of brd] by simp_all
  then show ?thesis
    by (auto simp: sorted_append order_less_le)
qed

lemma ongoing_has_candidate:
  assumes "calculateWinner brd = None"
  shows "candidates brd \<noteq> []"
proof -
  from assms have "\<not> list_all (\<lambda>sq. sq \<noteq> Empty) brd"
    by (auto simp: calculateWinner_def split: option.splits if_splits)
  then obtain i where "i < length brd" "brd ! i = Empty"
    by (auto simp: list_all_length)
  then have "i \<in> set (candidates brd)" by (simp add: candidates_iff)
  then show ?thesis by auto
qed

lemma getBestAIMove_ongoing:
  assumes "calculateWinner brd = None"
  shows "getBestAIMove brd p q =
     (case pick_best (map (\<lambda>i. (i, child_score brd p q i)) (candidates brd)) of
        Some (i, s) \<Rightarrow> \<lparr>idx = Some i, score = s\<rparr>
      | None \<Rightarrow> \<lparr>idx = None, score = 0\<rparr>)"
  using assms by (simp add: getBestAIMove.simps[of brd] child_score_def)

lemma ongoing_first_maximum:
  assumes "calculateWinner brd = None"
  shows "\<exists>i. getBestAIMove brd p q = \<lparr>idx = Some i, score = child_score brd p q i\<rparr>
      \<and> i < length brd \<and> brd ! i = Empty
      \<and> (\<forall>j. j < length brd \<and> brd ! j = Empty \<longrightarrow> child_score brd p q j \<le> child_score brd p q i)
      \<and> (\<forall>j. j < i \<and> brd ! j = Empty \<longrightarrow> child_score brd p q j < child_score brd p q i)"
proof -
  let ?g = "\<lambda>i. (i, child_score brd p q i)"
  let ?ms = "map ?g (candidates brd)"
  have ne: "?ms \<noteq> []" using ongoing_has_candidate[OF assms] by simp
  from pick_best_first_max[OF ne] obtain b pre post where
    pb: "pick_best ?ms = Some b" and dec: "?ms = pre @ b # post"
    and lt: "\<forall>m \<in> set pre. snd m < snd b" and le: "\<forall>m \<in> set post. snd m \<le> snd b"
    by blast
  from dec obtain cpre i cpost where
    c: "candidates brd = cpre @ i # cpost" and pre: "pre = map ?g cpre"
    and b: "b = ?g i" and post: "post = map ?g cpost"
    by (auto simp: map_eq_append_conv map_eq_Cons_conv)
  have res: "getBestAIMove brd p q = \<lparr>idx = Some i, score = child_score brd p q i\<rparr>"
    using getBestAIMove_ongoing[OF assms, of p q] pb b by simp
  have mem: "i \<in> set (candidates brd)" using c by simp
  from candidates_split[OF c] have ord: "\<forall>j \<in> set cpre. j < i" "\<forall>j \<in> set cpost. i < j" by auto
  have lt': "\<forall>j \<in> set cpre. child_score brd p q j < child_score brd p q i"
    using lt pre b by simp
  have le': "\<forall>j \<in> set cpost. child_score brd p q j \<le> child_score brd p q i"
    using le post b by simp
  have all: "child_score brd p q j \<le> child_score brd p q i"
    if "j < length brd" "brd ! j = Empty" for j
  proof -
    from that have "j \<in> set (candidates brd)" by (simp add: candidates_iff)
    then have "j \<in> set cpre \<or> j = i \<or> j \<in> set cpost" using c by auto
    then show ?thesis using lt' le' by fastforce
  qed
  have first: "child_score brd p q j < child_score brd p q i"
    if "j < i" "brd ! j = Empty" for j
  proof -
    from that mem have "j \<in> set (candidates brd)" by (simp add: candidates_iff)
    then have "j \<in> set cpre \<or> j = i \<or> j \<in> set cpost" using c by auto
    then have "j \<in> set cpre" using that(1) ord by auto
    then show ?thesis using lt' by simp
  qed
  show ?thesis
    using res mem all first by (auto simp: candidates_iff)
qed

text \<open>
  Claim C4. On a board whose outcome is ongoing, \<open>getBestAIMove\<close> returns the candidate
  whose negated recursive score is greatest, and among the candidates with that score the
  one with the lowest cell index.
\<close>

theorem getBestAIMove_first_maximum:
  assumes "calculateWinner brd = None"
  shows "\<exists>i. getBestAIMove brd p q = \<lparr>idx = Some i, score = child_score brd p q i\<rparr>
      \<and> i < length brd \<and> brd ! i = Empty
      \<and> (\<forall>j. j < length brd \<and> brd ! j = Empty \<longrightarrow> child_score brd p q j \<le> child_score brd p q i)
      \<and> (\<forall>j. j < i \<and> brd ! j = Empty \<longrightarrow> child_score brd p q j < child_score brd p q i)"
  using assms by (rule ongoing_first_maximum)

theorem getBestAIMove_first_maximum_witness:
  "calculateWinner getEmptyBoard = None
   \<and> (\<exists>i. getBestAIMove getEmptyBoard PLAYER_X PLAYER_O
            = \<lparr>idx = Some i, score = child_score getEmptyBoard PLAYER_X PLAYER_O i\<rparr>
        \<and> i < 9 \<and> getEmptyBoard ! i = Empty
        \<and> (\<forall>j. j < i \<and> getEmptyBoard ! j = Empty \<longrightarrow>
              child_score getEmptyBoard PLAYER_X PLAYER_O j
                < child_score getEmptyBoard PLAYER_X PLAYER_O i))"
proof -
  have l: "length getEmptyBoard = 9" by (simp add: getEmptyBoard_def)
  from getBestAIMove_first_maximum[OF calculateWinner_empty, of PLAYER_X PLAYER_O]
  show ?thesis unfolding l using calculateWinner_empty by blast
qed

lemma other_mark: "p \<noteq> q \<Longrightarrow> w \<noteq> p \<Longrightarrow> w = (q::mark)"
  by (cases p; cases q; cases w) simp_all

lemma getBestAIMove_cases:
  assumes "p \<noteq> q"
  shows "getBestAIMove brd p q =
     (case calculateWinner brd of
        Some (Win w l) \<Rightarrow> \<lparr>idx = None, score = (if w = p then 1 else - 1)\<rparr>
      | Some Draw \<Rightarrow> \<lparr>idx = None, score = 0\<rparr>
      | None \<Rightarrow>
          (case pick_best (map (\<lambda>i. (i, child_score brd p q i)) (candidates brd)) of
             Some (i, s) \<Rightarrow> \<lparr>idx = Some i, score = s\<rparr>
           | None \<Rightarrow> \<lparr>idx = None, score = 0\<rparr>))"
proof (cases "calculateWinner brd")
  case None
  then show ?thesis by (simp add: getBestAIMove_ongoing)
next
  case (Some r)
  show ?thesis
  proof (cases r)
    case (Win w l)
    then show ?thesis
      using Some other_mark[OF assms, of w]
      by (auto simp: getBestAIMove.simps[of brd])
  next
    case Draw
    then show ?thesis using Some by (simp add: getBestAIMove.simps[of brd])
  qed
qed

lemma score_ongoing_Max:
  assumes "calculateWinner brd = None"
  shows "score (getBestAIMove brd p q) = Max (child_score brd p q ` set (candidates brd))"
proof -
  from ongoing_first_maximum[OF assms, of p q] obtain i where
    r: "getBestAIMove brd p q = \<lparr>idx = Some i, score = child_score brd p q i\<rparr>"
    and i: "i < length brd" "brd ! i = Empty"
    and m: "\<forall>j. j < length brd \<and> brd ! j = Empty \<longrightarrow> child_score brd p q j \<le> child_score brd p q i"
    by blast
  have "Max (child_score brd p q ` set (candidates brd)) = child_score brd p q i"
    using i m by (intro Max_eqI) (auto simp: candidates_iff)
  then show ?thesis using r by simp
qed

lemma score_range:
  assumes "p \<noteq> q"
  shows "- 1 \<le> score (getBestAIMove brd p q) \<and> score (getBestAIMove brd p q) \<le> 1"
  using assms
proof (induction "unmarked brd" arbitrary: brd p q rule: less_induct)
  case less
  show ?case
  proof (cases "calculateWinner brd")
    case (Some r)
    then show ?thesis
      using less.prems by (cases r) (simp_all add: getBestAIMove_cases)
  next
    case None
    from ongoing_first_maximum[OF None, of p q] obtain i where
      r: "getBestAIMove brd p q = \<lparr>idx = Some i, score = child_score brd p q i\<rparr>"
      and i: "i < length brd" "brd ! i = Empty"
      by blast
    have "- 1 \<le> score (getBestAIMove (place brd i p) q p)
        \<and> score (getBestAIMove (place brd i p) q p) \<le> 1"
      using less.hyps[OF unmarked_place[OF i]] less.prems by auto
    then show ?thesis using r by (simp add: child_score_def)
  qed
qed

lemma best_move_rule:
  assumes "calculateWinner brd = None"
    and "i < length brd" and "brd ! i = Empty"
    and "\<forall>j \<in> set (candidates brd). j < i \<longrightarrow> child_score brd p q j < child_score brd p q i"
    and "\<forall>j \<in> set (candidates brd). child_score brd p q j \<le> child_score brd p q i"
  shows "getBestAIMove brd p q = \<lparr>idx = Some i, score = child_score brd p q i\<rparr>"
proof -
  from ongoing_first_maximum[OF assms(1), of p q] obtain k where
    r: "getBestAIMove brd p q = \<lparr>idx = Some k, score = child_score brd p q k\<rparr>"
    and k: "k < length brd" "brd ! k = Empty"
    and m: "\<forall>j. j < length brd \<and> brd ! j = Empty \<longrightarrow> child_score brd p q j \<le> child_score brd p q k"
    and f: "\<forall>j. j < k \<and> brd ! j = Empty \<longrightarrow> child_score brd p q j < child_score brd p q k"
    by blast
  have ki: "k \<in> set (candidates brd)" using k by (simp add: candidates_iff)
  have "\<not> k < i"
  proof
    assume "k < i"
    then have "child_score brd p q k < child_score brd p q i" using assms(4) ki by blast
    moreover have "child_score brd p q i \<le> child_score brd p q k" using m assms(2,3) by blast
    ultimately show False by simp
  qed
  moreover have "\<not> i < k"
  proof
    assume "i < k"
    then have "child_score brd p q i < child_score brd p q k" using f assms(3) by blast
    moreover have "child_score brd p q k \<le> child_score brd p q i" using assms(5) ki by blast
    ultimately show False by simp
  qed
  ultimately have "k = i" by simp
  then show ?thesis using r by simp
qed

text \<open>
  Claim C3, as stated: when some empty cell completes a line for the searching player,
  \<open>getBestAIMove\<close> returns such a cell. On the board below X completes the bottom row at
  cell 8, and the search returns cell 0, which wins two plies later.
\<close>

theorem immediate_win_counterexample:
  "calculateWinner fork_board = None
   \<and> fork_board ! 8 = Empty
   \<and> calculateWinner (place fork_board 8 PLAYER_X) = Some (Win PLAYER_X (6, 7, 8))
   \<and> getBestAIMove fork_board PLAYER_X PLAYER_O = \<lparr>idx = Some 0, score = 1\<rparr>
   \<and> calculateWinner (place fork_board 0 PLAYER_X) = None"
  by code_simp

text \<open>
  Claim C3, amended: on an ongoing board where some empty cell completes a line for the
  searching player \<open>p\<close>, \<open>getBestAIMove\<close> returns the score 1 and the lowest-index empty cell
  from which \<open>p\<close> wins with best play. That cell is not after the immediately winning one,
  and it is the immediately winning one when no empty cell before it forces a win.
\<close>

theorem immediate_win_available:
  assumes "calculateWinner brd = None" and "p \<noteq> q"
    and "i < length brd" and "brd ! i = Empty"
    and "calculateWinner (place brd i p) = Some (Win p l)"
  shows "\<exists>j. getBestAIMove brd p q = \<lparr>idx = Some j, score = 1\<rparr>
      \<and> j \<le> i \<and> j < length brd \<and> brd ! j = Empty
      \<and> score (getBestAIMove (place brd j p) q p) = - 1
      \<and> (\<forall>k. k < j \<and> brd ! k = Empty \<longrightarrow> score (getBestAIMove (place brd k p) q p) \<noteq> - 1)
      \<and> ((\<forall>k. k < i \<and> brd ! k = Empty \<longrightarrow> score (getBestAIMove (place brd k p) q p) \<noteq> - 1)
           \<longrightarrow> j = i)"
proof -
  have qp: "q \<noteq> p" using assms(2) by simp
  have "score (getBestAIMove (place brd i p) q p) = - 1"
    using assms(5) qp by (simp add: getBestAIMove_cases)
  then have ci: "child_score brd p q i = 1" by (simp add: child_score_def)
  from ongoing_first_maximum[OF assms(1), of p q] obtain j where
    r: "getBestAIMove brd p q = \<lparr>idx = Some j, score = child_score brd p q j\<rparr>"
    and j: "j < length brd" "brd ! j = Empty"
    and m: "\<forall>k. k < length brd \<and> brd ! k = Empty \<longrightarrow> child_score brd p q k \<le> child_score brd p q j"
    and f: "\<forall>k. k < j \<and> brd ! k = Empty \<longrightarrow> child_score brd p q k < child_score brd p q j"
    by blast
  have "child_score brd p q j \<le> 1"
    using score_range[OF qp, of "place brd j p"] by (simp add: child_score_def)
  moreover have "1 \<le> child_score brd p q j" using m assms(3,4) ci by force
  ultimately have cj: "child_score brd p q j = 1" by simp
  then have sj: "score (getBestAIMove (place brd j p) q p) = - 1" by (simp add: child_score_def)
  have ji: "j \<le> i"
  proof (rule ccontr)
    assume "\<not> j \<le> i"
    then have "child_score brd p q i < child_score brd p q j" using f assms(4) by simp
    then show False using ci cj by simp
  qed
  have low: "\<forall>k. k < j \<and> brd ! k = Empty \<longrightarrow> score (getBestAIMove (place brd k p) q p) \<noteq> - 1"
    using f cj by (fastforce simp: child_score_def)
  have same: "j = i" if "\<forall>k. k < i \<and> brd ! k = Empty \<longrightarrow> score (getBestAIMove (place brd k p) q p) \<noteq> - 1"
    using that ji j(2) sj by (metis le_neq_implies_less)
  show ?thesis
    using r cj ji j sj low same by auto
qed

lemma fork_board_facts:
  "calculateWinner fork_board = None"
  "fork_board ! 8 = Empty"
  "calculateWinner (place fork_board 8 PLAYER_X) = Some (Win PLAYER_X (6, 7, 8))"
  by code_simp+

theorem immediate_win_available_witness:
  "calculateWinner fork_board = None \<and> PLAYER_X \<noteq> PLAYER_O
   \<and> 8 < length fork_board \<and> fork_board ! 8 = Empty
   \<and> calculateWinner (place fork_board 8 PLAYER_X) = Some (Win PLAYER_X (6, 7, 8))
   \<and> (\<exists>j. getBestAIMove fork_board PLAYER_X PLAYER_O = \<lparr>idx = Some j, score = 1\<rparr>
         \<and> j \<le> 8 \<and> fork_board ! j = Empty
         \<and> score (getBestAIMove (place fork_board j PLAYER_X) PLAYER_O PLAYER_X) = - 1)"
proof -
  have n: "PLAYER_X \<noteq> PLAYER_O" by simp
  have l: "8 < length fork_board" by (simp add: fork_board_def)
  from immediate_win_available[OF fork_board_facts(1) n l fork_board_facts(2,3)]
  show ?thesis using fork_board_facts n l by blast
qed

section \<open>Perfect play\<close>

lemma place_wellformed:
  assumes "wellformed brd" and "i < length brd"
  shows "place brd i p = brd[i := Mark p]" and "wellformed (place brd i p)"
proof -
  from assms have sp: "spread brd = brd"
    by (simp add: wellformed_def spread_no_hole)
  show 1: "place brd i p = brd[i := Mark p]"
    using assms(2) by (simp add: place_def sp array_set_def)
  have "set (brd[i := Mark p]) \<subseteq> insert (Mark p) (set brd)"
    by (rule set_update_subset_insert)
  then show "wellformed (place brd i p)"
    using assms(1) unfolding 1 wellformed_def by auto
qed

lemma score_is_minimax_value:
  assumes "wellformed brd" and "p \<noteq> q"
  shows "score (getBestAIMove brd p q) = minimax_value brd p q"
  using assms
proof (induction "unmarked brd" arbitrary: brd p q rule: less_induct)
  case less
  show ?case
  proof (cases "calculateWinner brd")
    case (Some r)
    then show ?thesis
      using less.prems(2)
      by (cases r) (simp_all add: getBestAIMove_cases minimax_value.simps[of brd])
  next
    case None
    have eq: "child_score brd p q i = - minimax_value (brd[i := Mark p]) q p"
      if "i \<in> set (candidates brd)" for i
    proof -
      from that have i: "i < length brd" "brd ! i = Empty" by (simp_all add: candidates_iff)
      have "score (getBestAIMove (place brd i p) q p) = minimax_value (place brd i p) q p"
        using less.hyps[OF unmarked_place[OF i]] place_wellformed(2)[OF less.prems(1) i(1)]
          less.prems(2) by auto
      then show ?thesis
        by (simp add: child_score_def place_wellformed(1)[OF less.prems(1) i(1)])
    qed
    have set: "set (candidates brd) = {i. i < length brd \<and> brd ! i = Empty}"
      by (auto simp: candidates_iff)
    have "child_score brd p q ` set (candidates brd)
          = (\<lambda>i. - minimax_value (brd[i := Mark p]) q p) ` set (candidates brd)"
      using eq by (intro image_cong) auto
    then show ?thesis
      using None unfolding score_ongoing_Max[OF None] set
      by (simp add: minimax_value.simps[of brd])
  qed
qed

lemma length_place: "i < length brd \<Longrightarrow> length (place brd i p) = length brd"
  by (simp add: place_def array_set_def spread_def)

lemma free_cells_set:
  assumes "length brd = 9"
  shows "set (free_cells brd) = set (candidates brd)"
proof -
  have "set search_order = {0..<9}"
    by (auto simp: search_order_def)
  then show ?thesis
    using assms by (auto simp: free_cells_iff candidates_iff)
qed

lemma at_least_iff:
  assumes "length brd = 9" and "p \<noteq> q"
  shows "at_least brd p q v \<longleftrightarrow> v \<le> score (getBestAIMove brd p q)"
  using assms
proof (induction "unmarked brd" arbitrary: brd p q v rule: less_induct)
  case less
  show ?case
  proof (cases "calculateWinner brd")
    case (Some r)
    then show ?thesis
      using less.prems(2)
      by (cases r) (simp_all add: getBestAIMove_cases at_least.simps[of brd])
  next
    case None
    have step: "\<not> at_least (place brd i p) q p (1 - v) \<longleftrightarrow> v \<le> child_score brd p q i"
      if "i \<in> set (candidates brd)" for i
    proof -
      from that have i: "i < length brd" "brd ! i = Empty" by (simp_all add: candidates_iff)
      have "at_least (place brd i p) q p (1 - v)
            \<longleftrightarrow> 1 - v \<le> score (getBestAIMove (place brd i p) q p)"
        using less.hyps[OF unmarked_place[OF i]] length_place[OF i(1)] less.prems by auto
      then show ?thesis by (auto simp: child_score_def)
    qed
    have ne: "set (candidates brd) \<noteq> {}" using ongoing_has_candidate[OF None] by simp
    have "at_least brd p q v \<longleftrightarrow> (\<exists>i \<in> set (candidates brd). \<not> at_least (place brd i p) q p (1 - v))"
      using None by (simp add: at_least.simps[of brd] list_ex_iff free_cells_set[OF less.prems(1)])
    also have "\<dots> \<longleftrightarrow> (\<exists>i \<in> set (candidates brd). v \<le> child_score brd p q i)"
      using step by blast
    also have "\<dots> \<longleftrightarrow> v \<le> Max (child_score brd p q ` set (candidates brd))"
      using ne by (simp add: Max_ge_iff)
    finally show ?thesis by (simp add: score_ongoing_Max[OF None])
  qed
qed

lemma refute_Nil: "refute brd p q v [] = False"
  by (simp add: refute_def)

lemma refute_Cons:
  "refute brd p q v (i # is) =
     (if at_least (place brd i p) q p (1 - v) then refute brd p q v is else True)"
  by (simp add: refute_def)

lemma at_least_unfold:
  "at_least brd p q v =
     (case calculateWinner brd of
        Some (Win w l) \<Rightarrow> v \<le> (if w = p then 1 else - 1)
      | Some Draw \<Rightarrow> v \<le> 0
      | None \<Rightarrow> refute brd p q v (free_cells brd))"
  unfolding refute_def by (rule at_least.simps)

lemma read9:
  "read_cell [c0, c1, c2, c3, c4, c5, c6, c7, c8] 0 = cell_mark c0"
  "read_cell [c0, c1, c2, c3, c4, c5, c6, c7, c8] (Suc 0) = cell_mark c1"
  "read_cell [c0, c1, c2, c3, c4, c5, c6, c7, c8] 2 = cell_mark c2"
  "read_cell [c0, c1, c2, c3, c4, c5, c6, c7, c8] 3 = cell_mark c3"
  "read_cell [c0, c1, c2, c3, c4, c5, c6, c7, c8] 4 = cell_mark c4"
  "read_cell [c0, c1, c2, c3, c4, c5, c6, c7, c8] 5 = cell_mark c5"
  "read_cell [c0, c1, c2, c3, c4, c5, c6, c7, c8] 6 = cell_mark c6"
  "read_cell [c0, c1, c2, c3, c4, c5, c6, c7, c8] 7 = cell_mark c7"
  "read_cell [c0, c1, c2, c3, c4, c5, c6, c7, c8] 8 = cell_mark c8"
  by (simp_all add: read_cell_def split: cell.splits)

lemma unhole_eq: "(if c = Hole then Empty else c) = unhole c"
  by (cases c) simp_all

lemma place9:
  "place [c0, c1, c2, c3, c4, c5, c6, c7, c8] 0 p = [Mark p, unhole c1, unhole c2, unhole c3, unhole c4, unhole c5, unhole c6, unhole c7, unhole c8]"
  "place [c0, c1, c2, c3, c4, c5, c6, c7, c8] (Suc 0) p = [unhole c0, Mark p, unhole c2, unhole c3, unhole c4, unhole c5, unhole c6, unhole c7, unhole c8]"
  "place [c0, c1, c2, c3, c4, c5, c6, c7, c8] 2 p = [unhole c0, unhole c1, Mark p, unhole c3, unhole c4, unhole c5, unhole c6, unhole c7, unhole c8]"
  "place [c0, c1, c2, c3, c4, c5, c6, c7, c8] 3 p = [unhole c0, unhole c1, unhole c2, Mark p, unhole c4, unhole c5, unhole c6, unhole c7, unhole c8]"
  "place [c0, c1, c2, c3, c4, c5, c6, c7, c8] 4 p = [unhole c0, unhole c1, unhole c2, unhole c3, Mark p, unhole c5, unhole c6, unhole c7, unhole c8]"
  "place [c0, c1, c2, c3, c4, c5, c6, c7, c8] 5 p = [unhole c0, unhole c1, unhole c2, unhole c3, unhole c4, Mark p, unhole c6, unhole c7, unhole c8]"
  "place [c0, c1, c2, c3, c4, c5, c6, c7, c8] 6 p = [unhole c0, unhole c1, unhole c2, unhole c3, unhole c4, unhole c5, Mark p, unhole c7, unhole c8]"
  "place [c0, c1, c2, c3, c4, c5, c6, c7, c8] 7 p = [unhole c0, unhole c1, unhole c2, unhole c3, unhole c4, unhole c5, unhole c6, Mark p, unhole c8]"
  "place [c0, c1, c2, c3, c4, c5, c6, c7, c8] 8 p = [unhole c0, unhole c1, unhole c2, unhole c3, unhole c4, unhole c5, unhole c6, unhole c7, Mark p]"
  by (simp_all add: place_def spread_def array_set_def unhole_eq numeral_eq_Suc)

lemma free_at_eq: "(if c = Empty then i # rest else rest) = free_at c i rest"
  by (cases c) simp_all

lemma free_cells9:
  "free_cells [c0, c1, c2, c3, c4, c5, c6, c7, c8] =
     free_at c4 4 (free_at c0 0 (free_at c8 8 (free_at c2 2 (free_at c6 6
       (free_at c1 1 (free_at c3 3 (free_at c5 5 (free_at c7 7 []))))))))"
  by (simp add: free_cells_def search_order_def flip: free_at_eq)

text \<open>
  The game in which both sides play the move that \<open>getBestAIMove\<close> returns: from a board
  with \<open>p\<close> to move, until \<open>calculateWinner\<close> reports an outcome. \<open>None\<close> would be a search
  that returns no index on an ongoing board.
\<close>

lemma getBestAIMove_idx_candidate:
  assumes "calculateWinner brd = None" and "idx (getBestAIMove brd p q) = Some i"
  shows "i < length brd \<and> brd ! i = Empty"
  using ongoing_first_maximum[OF assms(1), of p q] assms(2) by auto

function play :: "squares \<Rightarrow> mark \<Rightarrow> mark \<Rightarrow> outcome option" where
  "play brd p q =
     (case calculateWinner brd of
        Some r \<Rightarrow> Some r
      | None \<Rightarrow>
          (case idx (getBestAIMove brd p q) of
             None \<Rightarrow> None
           | Some i \<Rightarrow> play (place brd i p) q p))"
  by pat_completeness auto
termination
proof (relation "measure (\<lambda>(brd, p, q). unmarked brd)")
  show "wf (measure (\<lambda>(brd, p, q). unmarked brd))" by simp
next
  fix brd :: squares and p q :: mark and i
  assume "calculateWinner brd = None" and "idx (getBestAIMove brd p q) = Some i"
  then have "i < length brd \<and> brd ! i = Empty" by (rule getBestAIMove_idx_candidate)
  then have "unmarked (place brd i p) < unmarked brd" by (simp add: unmarked_place)
  then show "((place brd i p, q, p), (brd, p, q)) \<in> measure (\<lambda>(brd, p, q). unmarked brd)"
    by simp
qed

declare play.simps [simp del]

lemma move_ok_best:
  assumes "length brd = 9" and "p \<noteq> q" and "move_ok brd p q i"
    and "score (getBestAIMove (place brd i p) q p) = 0"
  shows "getBestAIMove brd p q = \<lparr>idx = Some i, score = 0\<rparr>"
proof -
  from assms(3) have on: "calculateWinner brd = None" and i: "i < length brd" "brd ! i = Empty"
    and all: "\<forall>j \<in> set (candidates brd). j \<noteq> i \<longrightarrow>
                at_least (place brd j p) q p (if j < i then 1 else 0)"
    by (auto simp: move_ok_def list_all_iff split: if_splits)
  have ci: "child_score brd p q i = 0" using assms(4) by (simp add: child_score_def)
  have bound: "(if j < i then 1 else 0) \<le> score (getBestAIMove (place brd j p) q p)"
    if "j \<in> set (candidates brd)" "j \<noteq> i" for j
  proof -
    from that have "j < length brd" by (simp add: candidates_iff)
    then have "length (place brd j p) = 9" using assms(1) by (simp add: length_place)
    moreover have "q \<noteq> p" using assms(2) by simp
    ultimately show ?thesis using all that at_least_iff by blast
  qed
  have lt: "\<forall>j \<in> set (candidates brd). j < i \<longrightarrow> child_score brd p q j < child_score brd p q i"
    using bound ci by (fastforce simp: child_score_def)
  have le: "\<forall>j \<in> set (candidates brd). child_score brd p q j \<le> child_score brd p q i"
  proof
    fix j assume j: "j \<in> set (candidates brd)"
    show "child_score brd p q j \<le> child_score brd p q i"
    proof (cases "j = i")
      case True then show ?thesis by simp
    next
      case False
      from bound[OF j False] have "0 \<le> score (getBestAIMove (place brd j p) q p)"
        by (simp split: if_splits)
      then show ?thesis using ci by (simp add: child_score_def)
    qed
  qed
  from best_move_rule[OF on i lt le] ci show ?thesis by simp
qed

lemma line_ok_play:
  assumes "length brd = 9" and "p \<noteq> q" and "line_ok brd p q is"
  shows "play brd p q = Some Draw \<and> score (getBestAIMove brd p q) = 0"
  using assms
proof (induction "is" arbitrary: brd p q)
  case Nil
  then show ?case by (simp add: play.simps[of brd] getBestAIMove_cases)
next
  case (Cons i "is")
  from Cons.prems(3) have mo: "move_ok brd p q i" and rest: "line_ok (place brd i p) q p is"
    by simp_all
  from mo have on: "calculateWinner brd = None" and i: "i < length brd"
    by (simp_all add: move_ok_def)
  have len: "length (place brd i p) = 9" using i Cons.prems(1) by (simp add: length_place)
  have qp: "q \<noteq> p" using Cons.prems(2) by simp
  from Cons.IH[OF len qp rest] have
    pl: "play (place brd i p) q p = Some Draw" and sc: "score (getBestAIMove (place brd i p) q p) = 0"
    by simp_all
  from move_ok_best[OF Cons.prems(1,2) mo sc]
  have best: "getBestAIMove brd p q = \<lparr>idx = Some i, score = 0\<rparr>" .
  then show ?case using on pl by (simp add: play.simps[of brd])
qed

lemma candidates9:
  "candidates [c0, c1, c2, c3, c4, c5, c6, c7, c8] =
     free_at c0 0 (free_at c1 1 (free_at c2 2 (free_at c3 3 (free_at c4 4
       (free_at c5 5 (free_at c6 6 (free_at c7 7 (free_at c8 8 []))))))))"
proof -
  have "[0..<9] = [0, 1, 2, 3, 4, 5, 6, 7, 8]"
    by (simp add: upt_rec numeral_eq_Suc)
  then show ?thesis
    by (simp add: candidates_def flip: free_at_eq)
qed

lemma read9_one:
  "read_cell [c0, c1, c2, c3, c4, c5, c6, c7, c8] 1 = cell_mark c1"
  using read9(2) by simp

lemma place9_one:
  "place [c0, c1, c2, c3, c4, c5, c6, c7, c8] 1 p = [unhole c0, Mark p, unhole c2, unhole c3, unhole c4, unhole c5, unhole c6, unhole c7, unhole c8]"
  using place9(2) by simp

lemma at_least_0:
  "at_least brd p q 0 =
     (case calculateWinner brd of
        Some (Win w l) \<Rightarrow> w = p
      | Some Draw \<Rightarrow> True
      | None \<Rightarrow> refute brd p q 0 (free_cells brd))"
  by (subst at_least_unfold) (simp split: option.splits outcome.splits)

lemma at_least_1:
  "at_least brd p q 1 =
     (case calculateWinner brd of
        Some (Win w l) \<Rightarrow> w = p
      | Some Draw \<Rightarrow> False
      | None \<Rightarrow> refute brd p q 1 (free_cells brd))"
  by (subst at_least_unfold) (simp split: option.splits outcome.splits)

lemma refute_0:
  "refute brd p q 0 [] = False"
  "refute brd p q 0 (i # is) = (if at_least (place brd i p) q p 1 then refute brd p q 0 is else True)"
  by (simp_all add: refute_Nil refute_Cons)

lemma refute_1:
  "refute brd p q 1 [] = False"
  "refute brd p q 1 (i # is) = (if at_least (place brd i p) q p 0 then refute brd p q 1 is else True)"
  by (simp_all add: refute_Nil refute_Cons)

lemma all_marks9:
  "list_all (\<lambda>sq. sq \<noteq> Empty) [c0, c1, c2, c3, c4, c5, c6, c7, c8] =
     (free_at c0 0 (free_at c1 0 (free_at c2 0 (free_at c3 0 (free_at c4 0
       (free_at c5 0 (free_at c6 0 (free_at c7 0 (free_at c8 0 [])))))))) = [])"
proof -
  have "free_at c i rest = [] \<longleftrightarrow> c \<noteq> Empty \<and> rest = []" for c i rest
    by (cases c) simp_all
  then show ?thesis by simp
qed

lemmas fast_rules =
  at_least_0 at_least_1 refute_0 refute_1 calculateWinner_def lines_def check_lines.simps
  read9 read9_one place9 place9_one free_cells9 free_at.simps cell_mark.simps unhole.simps
  all_marks9 list.distinct
  option.case outcome.case option.inject option.distinct mark.distinct
  if_True if_False simp_thms

lemma selfplay_line:
  "line_ok getEmptyBoard PLAYER_X PLAYER_O [0, 4, 1, 2, 6, 3, 5, 7, 8]"
  apply (simp add: getEmptyBoard_cells move_ok_def candidates9 place9 calculateWinner_def lines_def read9)
  apply (simp only: fast_rules cong: if_weak_cong option.case_cong_weak outcome.case_cong_weak)
  done

lemma selfplay_draw: "play getEmptyBoard PLAYER_X PLAYER_O = Some Draw"
proof -
  have "length getEmptyBoard = 9" by (simp add: getEmptyBoard_def)
  moreover have "PLAYER_X \<noteq> PLAYER_O" by simp
  ultimately show ?thesis using line_ok_play selfplay_line by blast
qed

lemma score_forced:
  assumes "wellformed brd" and "p \<noteq> q"
  shows "(score (getBestAIMove brd p q) = 1 \<longleftrightarrow> forces_win brd p q)
       \<and> (score (getBestAIMove brd p q) = - 1 \<longleftrightarrow> cannot_avoid_loss brd p q)"
  using assms
proof (induction "unmarked brd" arbitrary: brd p q rule: less_induct)
  case less
  have qp: "q \<noteq> p" using less.prems(2) by simp
  show ?case
  proof (cases "calculateWinner brd")
    case (Some r)
    show ?thesis
    proof (cases r)
      case (Win w l)
      have "forces_win brd p q \<longleftrightarrow> w = p"
      proof
        assume "forces_win brd p q"
        then show "w = p" using Some Win by cases auto
      next
        assume "w = p"
        then show "forces_win brd p q" using Some Win has_won[of brd p l q] by simp
      qed
      moreover have "cannot_avoid_loss brd p q \<longleftrightarrow> w = q"
      proof
        assume "cannot_avoid_loss brd p q"
        then show "w = q" using Some Win by cases auto
      next
        assume "w = q"
        then show "cannot_avoid_loss brd p q" using Some Win has_lost[of brd q l p] by simp
      qed
      moreover have "w = q \<longleftrightarrow> w \<noteq> p"
        using less.prems(2) other_mark by blast
      ultimately show ?thesis
        using Some Win less.prems(2) by (simp add: getBestAIMove_cases)
    next
      case Draw
      have "\<not> forces_win brd p q"
      proof
        assume "forces_win brd p q"
        then show False using Some Draw by cases auto
      qed
      moreover have "\<not> cannot_avoid_loss brd p q"
      proof
        assume "cannot_avoid_loss brd p q"
        then show False using Some Draw by cases auto
      qed
      ultimately show ?thesis
        using Some Draw less.prems(2) by (simp add: getBestAIMove_cases)
    qed
  next
    case None
    from ongoing_first_maximum[OF None, of p q] obtain k where
      r: "score (getBestAIMove brd p q) = child_score brd p q k"
      and k: "k < length brd" "brd ! k = Empty"
      and m: "\<forall>j. j < length brd \<and> brd ! j = Empty \<longrightarrow> child_score brd p q j \<le> child_score brd p q k"
      by force
    have child: "child_score brd p q i = - score (getBestAIMove (brd[i := Mark p]) q p)
        \<and> (score (getBestAIMove (brd[i := Mark p]) q p) = 1 \<longleftrightarrow> forces_win (brd[i := Mark p]) q p)
        \<and> (score (getBestAIMove (brd[i := Mark p]) q p) = - 1 \<longleftrightarrow> cannot_avoid_loss (brd[i := Mark p]) q p)
        \<and> - 1 \<le> child_score brd p q i \<and> child_score brd p q i \<le> 1"
      if "i < length brd" "brd ! i = Empty" for i
    proof -
      have pl: "place brd i p = brd[i := Mark p]" "wellformed (brd[i := Mark p])"
        using place_wellformed[OF less.prems(1) that(1), of p] by simp_all
      have "unmarked (brd[i := Mark p]) < unmarked brd"
        using unmarked_place[OF that, of p] pl(1) by simp
      from less.hyps[OF this pl(2) qp] score_range[OF qp, of "brd[i := Mark p]"]
      show ?thesis by (simp add: child_score_def pl(1))
    qed
    have win: "score (getBestAIMove brd p q) = 1 \<longleftrightarrow> forces_win brd p q"
    proof
      assume "score (getBestAIMove brd p q) = 1"
      then have "score (getBestAIMove (brd[k := Mark p]) q p) = - 1"
        using r child[OF k] by simp
      then have "cannot_avoid_loss (brd[k := Mark p]) q p"
        using child[OF k] by blast
      then show "forces_win brd p q"
        using None k by (rule winning_move[rotated 3])
    next
      assume "forces_win brd p q"
      then obtain i where i: "i < length brd" "brd ! i = Empty"
        and "cannot_avoid_loss (brd[i := Mark p]) q p"
        using None by cases auto
      then have "child_score brd p q i = 1" using child[OF i] by simp
      then have "1 \<le> child_score brd p q k" using m i by force
      moreover have "child_score brd p q k \<le> 1" using child[OF k] by blast
      ultimately have "child_score brd p q k = 1" by simp
      then show "score (getBestAIMove brd p q) = 1" using r by simp
    qed
    have loss: "score (getBestAIMove brd p q) = - 1 \<longleftrightarrow> cannot_avoid_loss brd p q"
    proof
      assume a: "score (getBestAIMove brd p q) = - 1"
      have "forces_win (brd[i := Mark p]) q p" if i: "i < length brd" "brd ! i = Empty" for i
      proof -
        have "child_score brd p q i \<le> - 1" using m i r a by force
        moreover have "- 1 \<le> child_score brd p q i" using child[OF i] by blast
        ultimately have "child_score brd p q i = - 1" by simp
        moreover have "child_score brd p q i = - score (getBestAIMove (brd[i := Mark p]) q p)"
          using child[OF i] by blast
        ultimately have "score (getBestAIMove (brd[i := Mark p]) q p) = 1" by simp
        then show ?thesis using child[OF i] by blast
      qed
      then show "cannot_avoid_loss brd p q"
        using None by (intro every_move_loses) simp_all
    next
      assume "cannot_avoid_loss brd p q"
      then have "\<forall>i. i < length brd \<and> brd ! i = Empty \<longrightarrow> forces_win (brd[i := Mark p]) q p"
        using None by cases auto
      then have "forces_win (brd[k := Mark p]) q p" using k by blast
      then have "score (getBestAIMove (brd[k := Mark p]) q p) = 1" using child[OF k] by blast
      moreover have "child_score brd p q k = - score (getBestAIMove (brd[k := Mark p]) q p)"
        using child[OF k] by blast
      ultimately show "score (getBestAIMove brd p q) = - 1" using r by simp
    qed
    show ?thesis using win loss by simp
  qed
qed

text \<open>
  Claim C2. \<open>getBestAIMove\<close> plays perfectly: on every board of the data model, for the
  player to move \<open>p\<close> against \<open>q\<close>, its score is the game-theoretic value of the position
  (1 exactly when \<open>p\<close> can force a win, -1 exactly when \<open>p\<close> cannot avoid the loss, and 0
  otherwise); and the game from the empty board in which both sides play the returned move
  ends in a draw.
\<close>

theorem getBestAIMove_perfect_play:
  "(wellformed brd \<and> p \<noteq> q \<longrightarrow>
      score (getBestAIMove brd p q) = minimax_value brd p q
      \<and> (score (getBestAIMove brd p q) = 1 \<longleftrightarrow> forces_win brd p q)
      \<and> (score (getBestAIMove brd p q) = - 1 \<longleftrightarrow> cannot_avoid_loss brd p q)
      \<and> - 1 \<le> score (getBestAIMove brd p q) \<and> score (getBestAIMove brd p q) \<le> 1)
   \<and> play getEmptyBoard PLAYER_X PLAYER_O = Some Draw"
  using score_is_minimax_value[of brd p q] score_forced[of brd p q] score_range[of p q brd]
    selfplay_draw
  by blast

theorem getBestAIMove_perfect_play_witness:
  "wellformed two_in_row_board \<and> PLAYER_X \<noteq> PLAYER_O
   \<and> score (getBestAIMove two_in_row_board PLAYER_X PLAYER_O) = 1
   \<and> minimax_value two_in_row_board PLAYER_X PLAYER_O = 1
   \<and> forces_win two_in_row_board PLAYER_X PLAYER_O
   \<and> play getEmptyBoard PLAYER_X PLAYER_O = Some Draw"
proof -
  have w: "wellformed two_in_row_board"
    by (simp add: wellformed_def two_in_row_board_def)
  have n: "PLAYER_X \<noteq> PLAYER_O" by simp
  have "at_least two_in_row_board PLAYER_X PLAYER_O 1"
    unfolding two_in_row_board_def
    by (simp only: fast_rules cong: if_weak_cong option.case_cong_weak outcome.case_cong_weak)
  then have "1 \<le> score (getBestAIMove two_in_row_board PLAYER_X PLAYER_O)"
    using w n by (simp add: at_least_iff wellformed_def)
  then have s: "score (getBestAIMove two_in_row_board PLAYER_X PLAYER_O) = 1"
    using score_range[OF n, of two_in_row_board] by simp
  show ?thesis
    using w n s getBestAIMove_perfect_play[of two_in_row_board PLAYER_X PLAYER_O] by metis
qed

end
